theory Spec2Isabelle
  imports Main "HOL-Library.Word"
begin

section \<open>Data model\<close>

text \<open>
  The load balancer of \<^verbatim>\<open>main.go\<close> and the backend pool of package \<^verbatim>\<open>backend\<close>.
  A \<^verbatim>\<open>*url.URL\<close> is kept by the two things the program reads from it: its string
  form (\<^verbatim>\<open>URL.String()\<close>, compared by \<^verbatim>\<open>MarkBackendStatus\<close>) and its
  \<^verbatim>\<open>Host\<close> (dialled by \<^verbatim>\<open>isBackendAlive\<close>).
\<close>

record url =
  url_String :: string
  url_Host :: string

text \<open>
  Modelled from the spec: the struct \<^verbatim>\<open>backend.Backend\<close> and its methods
  \<^verbatim>\<open>IsAlive\<close> and \<^verbatim>\<open>SetAlive\<close> are declared in a file of package backend that is
  not among the sources. The fields are the ones \<^verbatim>\<open>main\<close> initialises
  (\<^verbatim>\<open>URL\<close>, \<^verbatim>\<open>Alive\<close>, \<^verbatim>\<open>ReverseProxy\<close>); the spec describes \<^verbatim>\<open>alive\<close> as
  a synchronised boolean that is read and written, so \<^verbatim>\<open>IsAlive\<close> reads the
  flag and \<^verbatim>\<open>SetAlive\<close> writes it. The \<^verbatim>\<open>ReverseProxy\<close> of a backend is not a
  field of the record: it is identified by the slot of its backend in the pool, and the
  \<^verbatim>\<open>serverUrl\<close> its error handler captured is passed along with it.
\<close>

record Backend =
  URL :: url
  Alive :: bool

definition IsAlive :: "Backend \<Rightarrow> bool" where
  "IsAlive b = Alive b"

definition SetAlive :: "bool \<Rightarrow> Backend \<Rightarrow> Backend" where
  "SetAlive alive b = b\<lparr>Alive := alive\<rparr>"

text \<open>
  \<^verbatim>\<open>ServerPool\<close>: the slice of backend pointers and the \<^verbatim>\<open>uint64\<close> cursor. Every
  slot of the slice holds a pointer to a backend of its own (\<^verbatim>\<open>main\<close> allocates one
  per configured server), so the slice is a list of backend values and a
  \<^verbatim>\<open>*Backend\<close> handed out by the pool is the position of its slot.
\<close>

record ServerPool =
  backends :: "Backend list"
  current :: "64 word"

text \<open>
  The two run-time panics the pool can raise. A division by zero names the expression
  that divides: the increment \<^verbatim>\<open>uint64(1)%uint64(len(s.backends))\<close> of
  \<^verbatim>\<open>NextIndex\<close> or the index reduction \<^verbatim>\<open>i % len(s.backends)\<close> of
  \<^verbatim>\<open>GetNextPeer\<close>.
\<close>

datatype site = IncrementExpression | IndexReduction

datatype panic = DivideByZero site | IndexOutOfRange

section \<open>ServerPool\<close>

definition AddBackend :: "Backend \<Rightarrow> ServerPool \<Rightarrow> ServerPool" where
  "AddBackend backend s = s\<lparr>backends := backends s @ [backend]\<rparr>"

text \<open>
  \<^verbatim>\<open>int(atomic.AddUint64(&s.current, uint64(1)%uint64(len(s.backends))))\<close>: the
  remainder is taken of the increment, not of the counter. With no backend the
  remainder divides by zero and panics before the counter is touched. Otherwise the
  counter grows by \<open>1 mod n\<close> (wrapping at \<open>2^64\<close>) and the new counter is returned,
  converted to the 64-bit \<^verbatim>\<open>int\<close> (two's complement, \<^const>\<open>sint\<close>).
\<close>

definition NextIndex :: "ServerPool \<Rightarrow> panic + (int \<times> ServerPool)" where
  "NextIndex s =
     (if length (backends s) = 0 then Inl (DivideByZero IncrementExpression)
      else let c = current s + (1 mod (of_nat (length (backends s)) :: 64 word))
           in Inr (sint c, s\<lparr>current := c\<rparr>))"

text \<open>Go's \<^verbatim>\<open>%\<close> on \<^verbatim>\<open>int\<close> truncates towards zero: the sign follows the dividend.\<close>

definition go_rem :: "int \<Rightarrow> int \<Rightarrow> int" where
  "go_rem a b = (if a < 0 then - ((- a) mod \<bar>b\<bar>) else a mod \<bar>b\<bar>)"

text \<open>Go's \<^verbatim>\<open>int\<close> arithmetic wraps silently at 64 bits.\<close>

definition int64 :: "int \<Rightarrow> int" where
  "int64 x = sint (word_of_int x :: 64 word)"

text \<open>
  The loop of \<^verbatim>\<open>GetNextPeer\<close>, \<^verbatim>\<open>for i := next; i < l; i++\<close>. Indexing the slice
  with a negative \<^verbatim>\<open>idx\<close> panics. The peer returned is the slot \<^verbatim>\<open>idx\<close>.
\<close>

function GetNextPeer_loop ::
  "ServerPool \<Rightarrow> int \<Rightarrow> int \<Rightarrow> int \<Rightarrow> panic + (nat option \<times> ServerPool)" where
  "GetNextPeer_loop s next l i =
     (if i < l then
        (if length (backends s) = 0 then Inl (DivideByZero IndexReduction)
         else let idx = go_rem i (int (length (backends s))) in
           if idx < 0 \<or> int (length (backends s)) \<le> idx then Inl IndexOutOfRange
           else if IsAlive (backends s ! nat idx) then
             Inr (Some (nat idx),
                  if i \<noteq> next then s\<lparr>current := word_of_int idx\<rparr> else s)
           else GetNextPeer_loop s next l (i + 1))
      else Inr (None, s))"
  by pat_completeness auto
termination
  by (relation "measure (\<lambda>(s, next, l, i). nat (l - i))") auto

declare GetNextPeer_loop.simps [simp del]

definition GetNextPeer :: "ServerPool \<Rightarrow> panic + (nat option \<times> ServerPool)" where
  "GetNextPeer s =
     (case NextIndex s of
        Inl e \<Rightarrow> Inl e
      | Inr (next, s1) \<Rightarrow>
          GetNextPeer_loop s1 next (int64 (int (length (backends s1)) + next)) next)"

text \<open>
  \<^verbatim>\<open>MarkBackendStatus\<close>: the \<^verbatim>\<open>range\<close> loop with its \<^verbatim>\<open>break\<close> at the first
  backend whose URL string equals the one given.
\<close>

fun MarkBackendStatus_loop :: "Backend list \<Rightarrow> url \<Rightarrow> bool \<Rightarrow> Backend list" where
  "MarkBackendStatus_loop [] backendUrl alive = []"
| "MarkBackendStatus_loop (b # bs) backendUrl alive =
     (if url_String (URL b) = url_String backendUrl then SetAlive alive b # bs
      else b # MarkBackendStatus_loop bs backendUrl alive)"

definition MarkBackendStatus :: "ServerPool \<Rightarrow> url \<Rightarrow> bool \<Rightarrow> ServerPool" where
  "MarkBackendStatus s backendUrl alive =
     s\<lparr>backends := MarkBackendStatus_loop (backends s) backendUrl alive\<rparr>"

section \<open>HealthCheck\<close>

text \<open>
  The lines the health check writes to the log: \<^verbatim>\<open>log.Println("Site unreachable,
  err: ", err)\<close> of \<^verbatim>\<open>isBackendAlive\<close> and \<^verbatim>\<open>log.Printf("%s []%s\n", b.URL,
  status)\<close> of \<^verbatim>\<open>HealthCheck\<close>.
\<close>

datatype log_record = LogUnreachable string | LogStatus url string

text \<open>
  \<^verbatim>\<open>net.DialTimeout("tcp", url.Host, timeout)\<close> is the network: a parameter
  \<open>dial\<close> that gives for a host \<open>None\<close> when the connection is made and the error
  otherwise.
\<close>

definition isBackendAlive :: "(string \<Rightarrow> string option) \<Rightarrow> url \<Rightarrow> bool \<times> log_record list" where
  "isBackendAlive dial u =
     (case dial (url_Host u) of
        Some err \<Rightarrow> (False, [LogUnreachable err])
      | None \<Rightarrow> (True, []))"

fun HealthCheck_loop ::
  "(string \<Rightarrow> string option) \<Rightarrow> Backend list \<Rightarrow> Backend list \<times> log_record list" where
  "HealthCheck_loop dial [] = ([], [])"
| "HealthCheck_loop dial (b # bs) =
     (let (alive, lg) = isBackendAlive dial (URL b);
          b' = SetAlive alive b;
          status = (if \<not> alive then ''down'' else ''up'');
          (bs', lg') = HealthCheck_loop dial bs
      in (b' # bs', lg @ [LogStatus (URL b) status] @ lg'))"

definition HealthCheck ::
  "(string \<Rightarrow> string option) \<Rightarrow> ServerPool \<Rightarrow> ServerPool \<times> log_record list" where
  "HealthCheck dial s =
     (let (bs, lg) = HealthCheck_loop dial (backends s) in (s\<lparr>backends := bs\<rparr>, lg))"

section \<open>Startup\<close>

text \<open>
  \<^verbatim>\<open>strings.Split(serverList, ",")\<close>: the fields between the separators; a string
  with no separator, the empty one too, is one field.
\<close>

fun split_on :: "char \<Rightarrow> string \<Rightarrow> string list" where
  "split_on c [] = [[]]"
| "split_on c (x # xs) =
     (if x = c then [] # split_on c xs
      else (case split_on c xs of
              t # ts \<Rightarrow> (x # t) # ts
            | [] \<Rightarrow> [[x]]))"

text \<open>
  The part of \<^verbatim>\<open>main\<close> that runs before the server listens. \<^verbatim>\<open>log.Fatal\<close> ends
  the process: the result is \<open>None\<close>. \<^verbatim>\<open>url.Parse\<close> is the parameter \<open>parse\<close>.
\<close>

fun add_servers :: "(string \<Rightarrow> url option) \<Rightarrow> string list \<Rightarrow> ServerPool \<Rightarrow> ServerPool option" where
  "add_servers parse [] s = Some s"
| "add_servers parse (tok # tokens) s =
     (case parse tok of
        None \<Rightarrow> None
      | Some serverUrl \<Rightarrow>
          add_servers parse tokens (AddBackend \<lparr>URL = serverUrl, Alive = True\<rparr> s))"

definition main_startup :: "(string \<Rightarrow> url option) \<Rightarrow> string \<Rightarrow> ServerPool option" where
  "main_startup parse serverList =
     (if length serverList = 0 then None
      else add_servers parse (split_on (CHR '','') serverList) \<lparr>backends = [], current = 0\<rparr>)"

text \<open>
  The pool states of a serving process: the one \<^verbatim>\<open>main\<close> built, and every state
  the pool's operations lead to from there.
\<close>

inductive serving :: "ServerPool \<Rightarrow> bool" where
  started: "main_startup parse serverList = Some s \<Longrightarrow> serving s"
| next_index: "serving s \<Longrightarrow> NextIndex s = Inr (i, s') \<Longrightarrow> serving s'"
| next_peer: "serving s \<Longrightarrow> GetNextPeer s = Inr (peer, s') \<Longrightarrow> serving s'"
| marked: "serving s \<Longrightarrow> serving (MarkBackendStatus s backendUrl alive)"
| checked: "serving s \<Longrightarrow> serving (fst (HealthCheck dial s))"

section \<open>Request dispatch\<close>

text \<open>
  The values a request carries in its context under the keys \<^verbatim>\<open>Attempts\<close> and
  \<^verbatim>\<open>Retry\<close>. An \<^verbatim>\<open>int\<close> read from the context is below 4 wherever the program
  adds one to it, so these are mathematical integers.
\<close>

record request =
  ctx_Attempts :: "int option"
  ctx_Retry :: "int option"

definition GetAttemptsFromContext :: "request \<Rightarrow> int" where
  "GetAttemptsFromContext r = (case ctx_Attempts r of Some attempts \<Rightarrow> attempts | None \<Rightarrow> 1)"

definition GetRetryFromContext :: "request \<Rightarrow> int" where
  "GetRetryFromContext r = (case ctx_Retry r of Some retry \<Rightarrow> retry | None \<Rightarrow> 0)"

text \<open>
  What reaches the caller through the \<^verbatim>\<open>http.ResponseWriter\<close>: the response of the
  backend in slot \<open>i\<close>, relayed by its proxy, or a reply written by \<^verbatim>\<open>http.Error\<close>
  (status code, content type, body). \<^verbatim>\<open>http.Error\<close> of the standard library sets
  the content type to plain text and writes the message followed by a newline.
\<close>

datatype response = Proxied nat | Reply nat string string

text \<open>
  The effects of a handler in program order: calls of the pool, forwards of a
  proxy (with their success), the delay before a retry, and the log lines.
\<close>

datatype event =
    EvGetNextPeer "nat option"
  | EvForward nat bool
  | EvLogError string
  | EvDelay
  | EvMarkBackendStatus url bool
  | EvLogAttempt int
  | EvLogMax

record dispatch_state =
  pool :: ServerPool
  writer :: "response list"
  trace :: "event list"

definition emit :: "event \<Rightarrow> dispatch_state \<Rightarrow> dispatch_state" where
  "emit e st = st\<lparr>trace := trace st @ [e]\<rparr>"

definition http_Error :: "string \<Rightarrow> nat \<Rightarrow> dispatch_state \<Rightarrow> dispatch_state" where
  "http_Error msg code st =
     st\<lparr>writer := writer st @ [Reply code ''text/plain; charset=utf-8'' (msg @ [CHR 0x0A])]\<rparr>"

text \<open>
  A bound on the calls a request can still cause, from the room its two counters leave:
  it decreases along every call among the three functions below.
\<close>

definition budget :: "request \<Rightarrow> nat" where
  "budget r = 3 * nat (4 - GetAttemptsFromContext r) + 2 * nat (3 - GetRetryFromContext r) + 1"

text \<open>
  \<^verbatim>\<open>lb\<close>, the \<^verbatim>\<open>ServeHTTP\<close> of a backend's reverse proxy, and the
  \<^verbatim>\<open>ErrorHandler\<close> closure \<^verbatim>\<open>main\<close> installs on it. The proxy is the one of slot
  \<open>i\<close>; \<open>serverUrl\<close> is the URL its closure captured. The transport is the
  parameter \<open>tr\<close>: \<open>tr i t\<close> says whether the forward to backend \<open>i\<close> made after
  \<open>t\<close> effects succeeds. On success the proxy relays the backend's response; on a
  transport error it calls its error handler with the request it was given.
\<close>

function lb :: "(nat \<Rightarrow> nat \<Rightarrow> bool) \<Rightarrow> request \<Rightarrow> dispatch_state \<Rightarrow> panic + dispatch_state"
  and ServeHTTP ::
    "(nat \<Rightarrow> nat \<Rightarrow> bool) \<Rightarrow> nat \<Rightarrow> url \<Rightarrow> request \<Rightarrow> dispatch_state \<Rightarrow> panic + dispatch_state"
  and ErrorHandler ::
    "(nat \<Rightarrow> nat \<Rightarrow> bool) \<Rightarrow> nat \<Rightarrow> url \<Rightarrow> request \<Rightarrow> dispatch_state \<Rightarrow> panic + dispatch_state"
where
  "lb tr r st =
     (let attempts = GetAttemptsFromContext r in
      if attempts > 3 then
        Inr (http_Error ''service not available'' 503 (emit EvLogMax st))
      else
        (case GetNextPeer (pool st) of
           Inl e \<Rightarrow> Inl e
         | Inr (peer, p) \<Rightarrow>
             (case peer of
                Some i \<Rightarrow>
                  ServeHTTP tr i (URL (backends p ! i)) r
                    (emit (EvGetNextPeer peer) (st\<lparr>pool := p\<rparr>))
              | None \<Rightarrow>
                  Inr (http_Error ''Service not available'' 503
                        (emit (EvGetNextPeer peer) (st\<lparr>pool := p\<rparr>))))))"
| "ServeHTTP tr i serverUrl r st =
     (if tr i (length (trace st)) then
        Inr ((emit (EvForward i True) st)\<lparr>writer := writer st @ [Proxied i]\<rparr>)
      else ErrorHandler tr i serverUrl r (emit (EvForward i False) st))"
| "ErrorHandler tr i serverUrl r st =
     (let retires = GetRetryFromContext r in
      if retires < 3 then
        ServeHTTP tr i serverUrl (r\<lparr>ctx_Retry := Some (retires + 1)\<rparr>)
          (emit EvDelay (emit (EvLogError (url_Host serverUrl)) st))
      else
        (let attempts = GetAttemptsFromContext r in
         lb tr (r\<lparr>ctx_Attempts := Some (attempts + 1)\<rparr>)
           (emit (EvLogAttempt attempts)
             (emit (EvMarkBackendStatus serverUrl False)
               ((emit (EvLogError (url_Host serverUrl)) st)
                  \<lparr>pool := MarkBackendStatus (pool st) serverUrl False\<rparr>)))))"
  by pat_completeness auto

termination
  apply (relation "measure (\<lambda>x. case x of
            Inl (tr, r, st) \<Rightarrow> (if GetAttemptsFromContext r > 3 then 0 else budget r + 2)
          | Inr (Inl (tr, i, u, r, st)) \<Rightarrow> budget r + 1
          | Inr (Inr (tr, i, u, r, st)) \<Rightarrow> budget r)")
     apply (auto simp: budget_def GetAttemptsFromContext_def GetRetryFromContext_def)
  done

declare lb.simps [simp del] ServeHTTP.simps [simp del] ErrorHandler.simps [simp del]

section \<open>Notions used in the statements\<close>

text \<open>
  The range of cursors in which the 64-bit arithmetic of \<^verbatim>\<open>GetNextPeer\<close> does not
  overflow, with room for \<open>k\<close> further calls: the pool is not empty, and the cursor
  plus the pool size, and twice the pool size, stay more than \<open>k\<close> below \<open>2^63\<close>.
  A pool built by \<^verbatim>\<open>main\<close> is in this range until about \<open>2^63\<close> selections
  have been made.
\<close>

definition pool_ok :: "nat \<Rightarrow> ServerPool \<Rightarrow> bool" where
  "pool_ok k s \<longleftrightarrow> backends s \<noteq> [] \<and> 2 * length (backends s) + k < 2 ^ 63
      \<and> unat (current s) + length (backends s) + k < 2 ^ 63"

text \<open>
  The counter value at which a scan of \<^verbatim>\<open>GetNextPeer\<close> starts, and the first
  counter value of the scan whose slot holds a live backend.
\<close>

definition scan_start :: "ServerPool \<Rightarrow> nat" where
  "scan_start s = unat (current s) + (if length (backends s) = 1 then 0 else 1)"

definition scan :: "ServerPool \<Rightarrow> nat option" where
  "scan s = find (\<lambda>j. IsAlive (backends s ! (j mod length (backends s))))
              [scan_start s ..< scan_start s + length (backends s)]"

text \<open>The outcome of the probe of a backend: whether the dial of its host succeeds.\<close>

definition probe :: "(string \<Rightarrow> string option) \<Rightarrow> Backend \<Rightarrow> bool" where
  "probe dial b = (dial (url_Host (URL b)) = None)"

text \<open>The peers returned by \<open>n\<close> consecutive calls, up to the first panic.\<close>

fun GetNextPeer_seq :: "nat \<Rightarrow> ServerPool \<Rightarrow> nat option list" where
  "GetNextPeer_seq 0 s = []"
| "GetNextPeer_seq (Suc n) s =
     (case GetNextPeer s of
        Inl e \<Rightarrow> []
      | Inr (peer, s') \<Rightarrow> peer # GetNextPeer_seq n s')"

text \<open>The slot of the first backend whose URL string is the one given.\<close>

fun first_match :: "Backend list \<Rightarrow> url \<Rightarrow> nat option" where
  "first_match [] u = None"
| "first_match (b # bs) u =
     (if url_String (URL b) = url_String u then Some 0
      else map_option Suc (first_match bs u))"

text \<open>What a trace says: the slots forwarded to, the peers selected, the attempts
  logged and the backends marked.\<close>

fun forwarded :: "event list \<Rightarrow> nat list" where
  "forwarded [] = []"
| "forwarded (EvForward i ok # evs) = i # forwarded evs"
| "forwarded (e # evs) = forwarded evs"

fun selected :: "event list \<Rightarrow> nat list" where
  "selected [] = []"
| "selected (EvGetNextPeer (Some i) # evs) = i # selected evs"
| "selected (e # evs) = selected evs"

fun attempts_logged :: "event list \<Rightarrow> int list" where
  "attempts_logged [] = []"
| "attempts_logged (EvLogAttempt a # evs) = a # attempts_logged evs"
| "attempts_logged (e # evs) = attempts_logged evs"

fun marked_dead :: "event list \<Rightarrow> url list" where
  "marked_dead [] = []"
| "marked_dead (EvMarkBackendStatus u alive # evs) = u # marked_dead evs"
| "marked_dead (e # evs) = marked_dead evs"

fun is_status :: "log_record \<Rightarrow> bool" where
  "is_status (LogStatus u st) = True"
| "is_status (LogUnreachable err) = False"

text \<open>The reply of \<^verbatim>\<open>http.Error(w, msg, http.StatusServiceUnavailable)\<close>.\<close>

definition unavailable :: "string \<Rightarrow> response" where
  "unavailable msg = Reply 503 ''text/plain; charset=utf-8'' (msg @ [CHR 0x0A])"

text \<open>
  What a dispatch that returns has written, whatever the state of the pool: one response,
  a relayed backend response or one of the two service-unavailable replies.
\<close>

definition replied :: "dispatch_state \<Rightarrow> panic + dispatch_state \<Rightarrow> bool" where
  "replied st res \<longleftrightarrow>
     (\<forall>st'. res = Inr st' \<longrightarrow>
        (\<exists>resp. writer st' = writer st @ [resp]
          \<and> ((\<exists>i. resp = Proxied i \<and> last (trace st') = EvForward i True)
             \<or> (resp = unavailable ''service not available'' \<and> last (trace st') = EvLogMax)
             \<or> (resp = unavailable ''Service not available''
                 \<and> last (trace st') = EvGetNextPeer None))))"

text \<open>
  The outcome of a dispatch that has answered the caller, entered with the attempts
  counter at \<open>a\<close>: one response was written, after the effects \<open>evs\<close>. It is a
  relayed backend response, right after a forward that succeeded; or the reply of the
  attempts ceiling, right after the ceiling was logged and with the counter, grown by one
  with each backend marked, past 3; or the reply of a selection that found none, right
  after that selection and with every backend of the pool dead.
\<close>

definition answered :: "int \<Rightarrow> dispatch_state \<Rightarrow> panic + dispatch_state \<Rightarrow> bool" where
  "answered a st res \<longleftrightarrow>
     (\<exists>st' evs resp. res = Inr st' \<and> writer st' = writer st @ [resp]
        \<and> trace st' = trace st @ evs \<and> evs \<noteq> []
        \<and> ((\<exists>i. resp = Proxied i \<and> last evs = EvForward i True)
           \<or> (resp = unavailable ''service not available'' \<and> last evs = EvLogMax
               \<and> 3 < a + int (length (marked_dead evs)))
           \<or> (resp = unavailable ''Service not available''
               \<and> last evs = EvGetNextPeer None
               \<and> (\<forall>b \<in> set (backends (pool st')). \<not> IsAlive b))))"

text \<open>
  The outcome of a dispatch that has given up, entered with the attempts counter at
  \<open>a\<close>: one service-unavailable reply was written, after at most \<open>k\<close> further
  selections; forwards went only to the backends in \<open>pending\<close> or selected since;
  each of them was marked dead once, and the attempts logged count up from \<open>a\<close>. The
  reply is that of the attempts ceiling, with the counter past 3, or that of a selection
  that found none, with every backend of the pool dead.
\<close>

definition given_up :: "int \<Rightarrow> nat set \<Rightarrow> nat \<Rightarrow> dispatch_state \<Rightarrow> panic + dispatch_state \<Rightarrow> bool" where
  "given_up a pending k st res \<longleftrightarrow>
     (\<exists>st' evs msg. res = Inr st' \<and> writer st' = writer st @ [unavailable msg]
        \<and> trace st' = trace st @ evs
        \<and> length (selected evs) \<le> k
        \<and> set (forwarded evs) \<subseteq> pending \<union> set (selected evs)
        \<and> length (marked_dead evs) = card pending + length (selected evs)
        \<and> attempts_logged evs = map (\<lambda>n. a + int n) [0..<length (marked_dead evs)]
        \<and> evs \<noteq> []
        \<and> ((msg = ''service not available'' \<and> last evs = EvLogMax
               \<and> 3 < a + int (length (marked_dead evs)))
           \<or> (msg = ''Service not available'' \<and> last evs = EvGetNextPeer None
               \<and> (\<forall>b \<in> set (backends (pool st')). \<not> IsAlive b))))"

section \<open>Concrete states\<close>

definition url_a :: url where
  "url_a = \<lparr>url_String = ''http://a:1'', url_Host = ''a:1''\<rparr>"

definition url_b :: url where
  "url_b = \<lparr>url_String = ''http://b:2'', url_Host = ''b:2''\<rparr>"

definition b0 :: Backend where
  "b0 = \<lparr>URL = url_a, Alive = True\<rparr>"

definition b1 :: Backend where
  "b1 = \<lparr>URL = url_b, Alive = True\<rparr>"

text \<open>Two servers and a cursor; one server; the same server configured twice.\<close>

definition pool2 :: "64 word \<Rightarrow> ServerPool" where
  "pool2 c = \<lparr>backends = [b0, b1], current = c\<rparr>"

definition pool1 :: ServerPool where
  "pool1 = \<lparr>backends = [b0], current = 0\<rparr>"

definition dup_pool :: ServerPool where
  "dup_pool = \<lparr>backends = [b0, b0], current = 0\<rparr>"

text \<open>A URL no backend has, and a \<^verbatim>\<open>url.Parse\<close> that accepts every token;
  the pool \<^verbatim>\<open>main\<close> builds with it from \<^verbatim>\<open>-backends=a,b\<close>.\<close>

definition url_c :: url where
  "url_c = \<lparr>url_String = ''http://c:3'', url_Host = ''c:3''\<rparr>"

definition parse_plain :: "string \<Rightarrow> url option" where
  "parse_plain tok = Some \<lparr>url_String = tok, url_Host = tok\<rparr>"

definition started2 :: ServerPool where
  "started2 = \<lparr>backends = [\<lparr>URL = \<lparr>url_String = ''a'', url_Host = ''a''\<rparr>, Alive = True\<rparr>,
                             \<lparr>URL = \<lparr>url_String = ''b'', url_Host = ''b''\<rparr>, Alive = True\<rparr>],
                 current = 0\<rparr>"

text \<open>The pool with no backend.\<close>

definition no_backends :: ServerPool where
  "no_backends = \<lparr>backends = [], current = 0\<rparr>"

text \<open>One server, observed dead.\<close>

definition dead_pool :: ServerPool where
  "dead_pool = \<lparr>backends = [b0\<lparr>Alive := False\<rparr>], current = 0\<rparr>"

text \<open>A request as the server hands it to \<^verbatim>\<open>lb\<close>, a transport on which every
  forward fails, and a network on which every dial is refused.\<close>

definition fresh :: request where
  "fresh = \<lparr>ctx_Attempts = None, ctx_Retry = None\<rparr>"

definition failing :: "nat \<Rightarrow> nat \<Rightarrow> bool" where
  "failing i t = False"

definition refused :: "string \<Rightarrow> string option" where
  "refused host = Some ''connection refused''"

definition idle :: "ServerPool \<Rightarrow> dispatch_state" where
  "idle s = \<lparr>pool = s, writer = [], trace = []\<rparr>"




section \<open>Lemmas about the pool\<close>

subsection \<open>The scan in the range without overflow\<close>

lemma go_rem_nat: "go_rem (int i) (int n) = int (i mod n)"
  by (simp add: go_rem_def zmod_int)

lemma loop_nat:
  assumes "0 < length (backends s)"
  shows "GetNextPeer_loop s (int nx) (int l) (int i) =
    (case find (\<lambda>j. IsAlive (backends s ! (j mod length (backends s)))) [i..<l] of
       None \<Rightarrow> Inr (None, s)
     | Some j \<Rightarrow> Inr (Some (j mod length (backends s)),
          if j \<noteq> nx then s\<lparr>current := of_nat (j mod length (backends s))\<rparr> else s))"
proof (induction "l - i" arbitrary: i)
  case 0
  then have "\<not> int i < int l" by simp
  moreover from 0 have "[i..<l] = []" by simp
  ultimately show ?case by (subst GetNextPeer_loop.simps) simp
next
  case (Suc k)
  then have lt: "i < l" by simp
  then have upt: "[i..<l] = i # [Suc i..<l]" by (rule upt_conv_Cons)
  have k: "k = l - Suc i" using Suc by simp
  have step: "int i + 1 = int (Suc i)" by simp
  have nle: "\<not> length (backends s) \<le> i mod length (backends s)"
    using assms by (simp add: not_le)
  show ?case
    apply (subst GetNextPeer_loop.simps)
    using lt assms nle
    apply (simp add: upt go_rem_nat Let_def step Suc.hyps(1)[OF k] del: of_nat_Suc)
    done
qed

lemma sint_word_of_int_small:
  "- (2 ^ 63) \<le> x \<Longrightarrow> x < 2 ^ 63 \<Longrightarrow> sint (word_of_int x :: 64 word) = x"
  by (simp add: sint_sbintrunc' signed_take_bit_int_eq_self)

lemma sint_of_nat_small: "n < 2 ^ 63 \<Longrightarrow> sint (of_nat n :: 64 word) = int n"
  using sint_word_of_int_small[of "int n"] by simp

lemma int64_small: "- (2 ^ 63) \<le> x \<Longrightarrow> x < 2 ^ 63 \<Longrightarrow> int64 x = x"
  by (simp add: int64_def sint_word_of_int_small)

lemma unat_of_nat_small: "n < 2 ^ 63 \<Longrightarrow> unat (of_nat n :: 64 word) = n"
  by (simp add: unat_of_nat)

lemma of_nat_eq_1_iff:
  assumes "n < 2 ^ 62"
  shows "(of_nat n :: 64 word) = 1 \<longleftrightarrow> n = 1"
proof
  assume "(of_nat n :: 64 word) = 1"
  then have "unat (of_nat n :: 64 word) = 1" by simp
  moreover have "n < 2 ^ 64" using assms by simp
  ultimately show "n = 1" by (simp add: unat_of_nat)
qed simp

lemma one_mod_word:
  assumes "n < 2 ^ 62"
  shows "(1::64 word) mod of_nat n = (if n = 1 then 0 else 1)"
  by (simp add: mod_word_one of_nat_eq_1_iff[OF assms])

lemma pool_okD:
  assumes "pool_ok k s"
  shows "0 < length (backends s)" "length (backends s) < 2 ^ 62"
    "unat (current s) + length (backends s) + k < 2 ^ 63"
    "2 * length (backends s) + k < 2 ^ 63"
  using assms by (auto simp: pool_ok_def)

lemma NextIndex_ok:
  assumes "pool_ok (Suc k) s"
  shows "NextIndex s = Inr (int (scan_start s), s\<lparr>current := of_nat (scan_start s)\<rparr>)"
proof -
  let ?n = "length (backends s)"
  note n = pool_okD(1,2)[OF assms] and c = pool_okD(3)[OF assms]
  have c': "current s + 1 mod of_nat ?n = (of_nat (scan_start s) :: 64 word)"
    by (subst one_mod_word[OF n(2)]) (simp add: scan_start_def)
  have "scan_start s < 2 ^ 63" using c by (simp add: scan_start_def)
  then have "sint (of_nat (scan_start s) :: 64 word) = int (scan_start s)"
    by (rule sint_of_nat_small)
  then show ?thesis unfolding NextIndex_def Let_def c' using n by simp
qed

lemma GetNextPeer_ok:
  assumes "pool_ok (Suc k) s"
  shows "GetNextPeer s =
    (case scan s of
       None \<Rightarrow> Inr (None, s\<lparr>current := of_nat (scan_start s)\<rparr>)
     | Some j \<Rightarrow> Inr (Some (j mod length (backends s)),
          s\<lparr>current := of_nat (if j \<noteq> scan_start s then j mod length (backends s) else scan_start s)\<rparr>))"
proof -
  let ?n = "length (backends s)"
  let ?s1 = "s\<lparr>current := of_nat (scan_start s)\<rparr>"
  note n = pool_okD(1,2)[OF assms] and c = pool_okD(3)[OF assms]
  have "?n + scan_start s < 2 ^ 63" using c by (simp add: scan_start_def)
  then have "int ?n + int (scan_start s) < 2 ^ 63"
    by (metis of_nat_add of_nat_less_numeral_power_cancel_iff)
  then have l: "int64 (int ?n + int (scan_start s)) = int (scan_start s + ?n)"
    by (simp add: int64_small)
  have n1: "0 < length (backends ?s1)" using n by simp
  show ?thesis
    unfolding GetNextPeer_def NextIndex_ok[OF assms]
    using loop_nat[OF n1, of "scan_start s" "scan_start s + ?n" "scan_start s"]
    by (simp add: l scan_def split: option.splits)
qed

lemma residues:
  assumes "0 < (n::nat)" "i < n"
  shows "\<exists>j. a \<le> j \<and> j < a + n \<and> j mod n = i"
proof -
  let ?d = "(i + n - a mod n) mod n"
  have r: "a mod n < n" using assms by simp
  have "(a + ?d) mod n = (a mod n + (i + n - a mod n)) mod n"
    by (simp add: mod_add_eq mod_add_left_eq mod_add_right_eq)
  also have "a mod n + (i + n - a mod n) = i + n" using r by simp
  also have "(i + n) mod n = i" using assms by simp
  finally have "(a + ?d) mod n = i" .
  moreover have "?d < n" using assms by simp
  ultimately show ?thesis by (intro exI[of _ "a + ?d"]) simp
qed

lemma scan_None_iff:
  assumes "backends s \<noteq> []"
  shows "scan s = None \<longleftrightarrow> (\<forall>b \<in> set (backends s). \<not> IsAlive b)"
proof
  assume none: "scan s = None"
  show "\<forall>b \<in> set (backends s). \<not> IsAlive b"
  proof
    fix b assume "b \<in> set (backends s)"
    then obtain i where i: "i < length (backends s)" "backends s ! i = b"
      by (auto simp: in_set_conv_nth)
    from residues[of "length (backends s)" i "scan_start s"] i assms
    obtain j where j: "scan_start s \<le> j" "j < scan_start s + length (backends s)"
      "j mod length (backends s) = i" by auto
    from none j(1,2) have "\<not> IsAlive (backends s ! (j mod length (backends s)))"
      by (auto simp: scan_def find_None_iff)
    then show "\<not> IsAlive b" using j(3) i(2) by simp
  qed
next
  assume dead: "\<forall>b \<in> set (backends s). \<not> IsAlive b"
  have "\<And>j. \<not> IsAlive (backends s ! (j mod length (backends s)))"
    using dead assms by (simp add: nth_mem)
  then show "scan s = None" by (simp add: scan_def find_None_iff)
qed

lemma scan_SomeD:
  assumes "scan s = Some j"
  shows "IsAlive (backends s ! (j mod length (backends s)))"
    and "scan_start s \<le> j" and "j < scan_start s + length (backends s)"
  using assms by (auto simp: scan_def find_Some_iff)

lemma scan_all_alive:
  assumes "backends s \<noteq> []" "\<forall>b \<in> set (backends s). IsAlive b"
  shows "scan s = Some (scan_start s)"
proof -
  have "IsAlive (backends s ! (scan_start s mod length (backends s)))"
    using assms by (simp add: nth_mem)
  moreover have "[scan_start s ..< scan_start s + length (backends s)]
      = scan_start s # [Suc (scan_start s) ..< scan_start s + length (backends s)]"
    using assms by (simp add: upt_conv_Cons)
  ultimately show ?thesis by (simp add: scan_def)
qed

text \<open>What a successful call guarantees, in the safe range.\<close>

lemma GetNextPeer_safe:
  assumes "pool_ok (Suc k) s"
  shows "\<exists>peer s'. GetNextPeer s = Inr (peer, s') \<and> backends s' = backends s \<and> pool_ok k s'
       \<and> (peer = None \<longleftrightarrow> (\<forall>b \<in> set (backends s). \<not> IsAlive b))
       \<and> (\<forall>i. peer = Some i \<longrightarrow> i < length (backends s) \<and> IsAlive (backends s ! i))"
proof -
  let ?n = "length (backends s)"
  note n = pool_okD(1,2)[OF assms] and c = pool_okD(3)[OF assms] and d = pool_okD(4)[OF assms]
  have ne: "backends s \<noteq> []" using n by auto
  have st: "scan_start s \<le> unat (current s) + 1" by (simp add: scan_start_def)
  show ?thesis
  proof (cases "scan s")
    case None
    have "unat (of_nat (scan_start s) :: 64 word) = scan_start s"
      using st c by (intro unat_of_nat_small) simp
    then have "pool_ok k (s\<lparr>current := of_nat (scan_start s)\<rparr>)"
      using st c d ne by (simp add: pool_ok_def)
    then show ?thesis
      using None scan_None_iff[OF ne] by (simp add: GetNextPeer_ok[OF assms])
  next
    case (Some j)
    let ?c = "if j \<noteq> scan_start s then j mod ?n else scan_start s"
    have jn: "j mod ?n < ?n" using n by simp
    have cb: "?c + ?n + k < 2 ^ 63" using st c d jn by (auto split: if_splits)
    then have "unat (of_nat ?c :: 64 word) = ?c"
      by (intro unat_of_nat_small) simp
    then have "pool_ok k (s\<lparr>current := of_nat ?c\<rparr>)"
      using cb d ne unfolding pool_ok_def by simp
    moreover have "IsAlive (backends s ! (j mod ?n))" by (rule scan_SomeD(1)[OF Some])
    moreover have "\<exists>b \<in> set (backends s). IsAlive b"
      using calculation(2) jn nth_mem by blast
    ultimately show ?thesis
      using Some jn by (simp add: GetNextPeer_ok[OF assms])
  qed
qed

subsection \<open>Facts that hold for every cursor\<close>

lemma GetNextPeer_loop_Some:
  "GetNextPeer_loop s nx l i = Inr (Some p, s') \<Longrightarrow>
     p < length (backends s) \<and> IsAlive (backends s ! p)"
proof (induction s nx l i rule: GetNextPeer_loop.induct)
  case (1 s nx l i)
  from "1.prems" show ?case
    apply (subst (asm) GetNextPeer_loop.simps)
    apply (auto simp: Let_def split: if_splits intro: "1.IH")
    using "1.IH" apply (auto simp: Let_def)
    done
qed

lemma GetNextPeer_loop_backends:
  "GetNextPeer_loop s nx l i = Inr (peer, s') \<Longrightarrow> backends s' = backends s"
proof (induction s nx l i rule: GetNextPeer_loop.induct)
  case (1 s nx l i)
  from "1.prems" show ?case
    apply (subst (asm) GetNextPeer_loop.simps)
    apply (auto simp: Let_def split: if_splits)
    using "1.IH" apply (auto simp: Let_def)
    done
qed

lemma NextIndex_backends: "NextIndex s = Inr (i, s') \<Longrightarrow> backends s' = backends s"
  by (auto simp: NextIndex_def Let_def split: if_splits)

lemma GetNextPeer_backends:
  "GetNextPeer s = Inr (peer, s') \<Longrightarrow> backends s' = backends s"
  by (auto simp: GetNextPeer_def split: sum.splits
        dest!: GetNextPeer_loop_backends NextIndex_backends)

lemma GetNextPeer_Some:
  assumes "GetNextPeer s = Inr (Some p, s')"
  shows "p < length (backends s) \<and> IsAlive (backends s ! p)"
proof -
  from assms obtain nx s1 where n: "NextIndex s = Inr (nx, s1)"
    and l: "GetNextPeer_loop s1 nx (int64 (int (length (backends s1)) + nx)) nx = Inr (Some p, s')"
    by (auto simp: GetNextPeer_def split: sum.splits)
  from GetNextPeer_loop_Some[OF l] NextIndex_backends[OF n] show ?thesis by simp
qed

lemma GetNextPeer_loop_not_DivideByZero:
  "backends s \<noteq> [] \<Longrightarrow> GetNextPeer_loop s nx l i \<noteq> Inl (DivideByZero e)"
proof (induction s nx l i rule: GetNextPeer_loop.induct)
  case (1 s nx l i)
  show ?case
    apply (subst GetNextPeer_loop.simps)
    using "1.prems" "1.IH" apply (auto simp: Let_def)
    done
qed

lemma loop_not_entered:
  "\<not> i < l \<Longrightarrow> GetNextPeer_loop s nx l i = Inr (None, s)"
  by (subst GetNextPeer_loop.simps) simp

lemma NextIndex_DivideByZero_iff:
  "NextIndex s = Inl (DivideByZero e) \<longleftrightarrow> backends s = [] \<and> e = IncrementExpression"
  by (auto simp: NextIndex_def Let_def)

lemma GetNextPeer_DivideByZero_iff:
  "GetNextPeer s = Inl (DivideByZero e) \<longleftrightarrow> backends s = [] \<and> e = IncrementExpression"
proof (cases "backends s = []")
  case True
  then show ?thesis by (auto simp: GetNextPeer_def NextIndex_def)
next
  case False
  then show ?thesis
    using GetNextPeer_loop_not_DivideByZero[of _ _ _ _ e]
    by (auto simp: GetNextPeer_def NextIndex_def Let_def)
qed

subsection \<open>MarkBackendStatus\<close>

lemma first_match_None_iff:
  "first_match bs u = None \<longleftrightarrow> (\<forall>b \<in> set bs. url_String (URL b) \<noteq> url_String u)"
  by (induction bs) auto

lemma first_match_SomeD:
  "first_match bs u = Some j \<Longrightarrow>
     j < length bs \<and> url_String (URL (bs ! j)) = url_String u
     \<and> (\<forall>i < j. url_String (URL (bs ! i)) \<noteq> url_String u)"
proof (induction bs arbitrary: j)
  case Nil
  then show ?case by simp
next
  case (Cons b bs)
  show ?case
  proof (cases "url_String (URL b) = url_String u")
    case True
    with Cons.prems show ?thesis by simp
  next
    case False
    with Cons.prems obtain k where k: "first_match bs u = Some k" "j = Suc k" by auto
    from Cons.IH[OF k(1)] have ih: "k < length bs" "url_String (URL (bs ! k)) = url_String u"
      "\<And>i. i < k \<Longrightarrow> url_String (URL (bs ! i)) \<noteq> url_String u" by auto
    have "url_String (URL ((b # bs) ! i)) \<noteq> url_String u" if "i < j" for i
    proof (cases i)
      case 0
      then show ?thesis using False by simp
    next
      case (Suc i')
      then show ?thesis using that k(2) ih(3)[of i'] by simp
    qed
    then show ?thesis using ih(1,2) k(2) by simp
  qed
qed

lemma first_match_least:
  assumes "j < length bs" "url_String (URL (bs ! j)) = url_String u"
    "\<forall>i < j. url_String (URL (bs ! i)) \<noteq> url_String u"
  shows "first_match bs u = Some j"
proof (cases "first_match bs u")
  case None
  with assms(1,2) show ?thesis by (auto simp: first_match_None_iff)
next
  case (Some k)
  from first_match_SomeD[OF Some] assms have "\<not> k < j" "\<not> j < k" by auto
  with Some show ?thesis by simp
qed

lemma MarkBackendStatus_loop_eq:
  "MarkBackendStatus_loop bs u alive =
     (case first_match bs u of
        None \<Rightarrow> bs
      | Some j \<Rightarrow> bs[j := (bs ! j)\<lparr>Alive := alive\<rparr>])"
  by (induction bs) (auto simp: SetAlive_def split: option.splits)

lemma MarkBackendStatus_eq:
  "MarkBackendStatus s u alive =
     (case first_match (backends s) u of
        None \<Rightarrow> s
      | Some j \<Rightarrow> s\<lparr>backends := (backends s)[j := (backends s ! j)\<lparr>Alive := alive\<rparr>]\<rparr>)"
  by (simp add: MarkBackendStatus_def MarkBackendStatus_loop_eq split: option.splits)

lemma MarkBackendStatus_length [simp]:
  "length (backends (MarkBackendStatus s u alive)) = length (backends s)"
  by (simp add: MarkBackendStatus_eq split: option.splits)

lemma MarkBackendStatus_current [simp]:
  "current (MarkBackendStatus s u alive) = current s"
  by (simp add: MarkBackendStatus_eq split: option.splits)

lemma MarkBackendStatus_URL:
  "map URL (backends (MarkBackendStatus s u alive)) = map URL (backends s)"
proof (cases "first_match (backends s) u")
  case None
  then show ?thesis by (simp add: MarkBackendStatus_eq)
next
  case (Some j)
  from first_match_SomeD[OF Some] have "j < length (backends s)" by simp
  then have "(map URL (backends s))[j := URL (backends s ! j)] = map URL (backends s)"
    by (simp add: list_update_same_conv)
  then show ?thesis using Some by (simp add: MarkBackendStatus_eq map_update)
qed

lemma MarkBackendStatus_nonempty [simp]:
  "backends (MarkBackendStatus s u alive) = [] \<longleftrightarrow> backends s = []"
  using MarkBackendStatus_length[of s u alive] length_0_conv by metis

lemma MarkBackendStatus_pool_ok [simp]:
  "pool_ok k (MarkBackendStatus s u alive) = pool_ok k s"
  by (simp add: pool_ok_def)

subsection \<open>Consecutive selections\<close>

lemma GetNextPeer_seq_dead:
  "j < length (backends t) \<Longrightarrow> \<not> IsAlive (backends t ! j) \<Longrightarrow>
     Some j \<notin> set (GetNextPeer_seq n t)"
proof (induction n arbitrary: t)
  case 0
  then show ?case by simp
next
  case (Suc n)
  show ?case
  proof (cases "GetNextPeer t")
    case (Inl e)
    then show ?thesis by simp
  next
    case (Inr x)
    obtain peer t' where x: "x = (peer, t')" by (cases x)
    from Inr x have bs: "backends t' = backends t" by (simp add: GetNextPeer_backends)
    have "peer \<noteq> Some j"
      using GetNextPeer_Some[of t j t'] Inr x Suc.prems by auto
    moreover have "Some j \<notin> set (GetNextPeer_seq n t')"
      using Suc.IH[of t'] Suc.prems bs by simp
    ultimately show ?thesis using Inr x by simp
  qed
qed

subsection \<open>HealthCheck\<close>


lemma HealthCheck_loop_backends:
  "fst (HealthCheck_loop dial bs) = map (\<lambda>b. b\<lparr>Alive := probe dial b\<rparr>) bs"
  by (induction bs)
     (auto simp: isBackendAlive_def SetAlive_def probe_def split: option.splits prod.splits)

lemma HealthCheck_loop_status:
  "filter is_status (snd (HealthCheck_loop dial bs)) =
     map (\<lambda>b. LogStatus (URL b) (if probe dial b then ''up'' else ''down'')) bs"
  by (induction bs)
     (auto simp: isBackendAlive_def SetAlive_def probe_def split: option.splits prod.splits)

lemma HealthCheck_loop_unreachable:
  "length (filter (\<lambda>r. \<not> is_status r) (snd (HealthCheck_loop dial bs))) =
     length (filter (\<lambda>b. \<not> probe dial b) bs)"
  by (induction bs)
     (auto simp: isBackendAlive_def SetAlive_def probe_def split: option.splits prod.splits)

lemma HealthCheck_loop_log_again:
  "snd (HealthCheck_loop dial (map (\<lambda>b. b\<lparr>Alive := f b\<rparr>) bs)) = snd (HealthCheck_loop dial bs)"
  by (induction bs)
     (auto simp: isBackendAlive_def SetAlive_def probe_def split: option.splits prod.splits)

lemma HealthCheck_alt:
  "HealthCheck dial s = (s\<lparr>backends := fst (HealthCheck_loop dial (backends s))\<rparr>,
      snd (HealthCheck_loop dial (backends s)))"
  by (simp add: HealthCheck_def split: prod.splits)

lemma HealthCheck_backends:
  "backends (fst (HealthCheck dial s)) = map (\<lambda>b. b\<lparr>Alive := probe dial b\<rparr>) (backends s)"
  by (simp add: HealthCheck_alt HealthCheck_loop_backends)

lemma HealthCheck_current: "current (fst (HealthCheck dial s)) = current s"
  by (simp add: HealthCheck_alt)

lemma probe_update [simp]: "probe dial (b\<lparr>Alive := x\<rparr>) = probe dial b"
  by (simp add: probe_def)

lemma HealthCheck_idem:
  "fst (HealthCheck dial (fst (HealthCheck dial s))) = fst (HealthCheck dial s)"
  by (simp add: HealthCheck_alt HealthCheck_loop_backends)

lemma HealthCheck_log_again:
  "snd (HealthCheck dial (fst (HealthCheck dial s))) = snd (HealthCheck dial s)"
  by (simp add: HealthCheck_alt HealthCheck_loop_backends HealthCheck_loop_log_again)

subsection \<open>Startup\<close>

lemma split_on_not_Nil: "split_on c xs \<noteq> []"
  by (induction xs) (auto split: list.splits)

lemma add_servers_length:
  "add_servers parse toks s = Some s' \<Longrightarrow>
     length (backends s') = length (backends s) + length toks"
  by (induction toks arbitrary: s) (auto simp: AddBackend_def split: option.splits)

lemma main_startup_nonempty:
  assumes "main_startup parse serverList = Some s"
  shows "backends s \<noteq> []"
proof -
  from assms have "add_servers parse (split_on (CHR '','') serverList)
      \<lparr>backends = [], current = 0\<rparr> = Some s"
    by (simp add: main_startup_def split: if_splits)
  from add_servers_length[OF this] split_on_not_Nil[of "CHR '',''" serverList]
  show ?thesis by auto
qed

lemma serving_nonempty: "serving s \<Longrightarrow> backends s \<noteq> []"
proof (induction rule: serving.induct)
  case (started parse serverList s)
  then show ?case by (rule main_startup_nonempty)
next
  case (next_index s i s')
  then show ?case by (simp add: NextIndex_backends)
next
  case (next_peer s peer s')
  then show ?case by (simp add: GetNextPeer_backends)
next
  case (marked s backendUrl alive)
  then show ?case by simp
next
  case (checked s dial)
  then show ?case by (simp add: HealthCheck_backends)
qed

lemma probe_isBackendAlive: "fst (isBackendAlive dial (URL b)) = probe dial b"
  by (simp add: isBackendAlive_def probe_def split: option.splits)


subsection \<open>Round robin and skipping, in the range without overflow\<close>

text \<open>
  While the cursor is far enough below \<open>2^63\<close>: on a pool of live backends the
  \<open>n\<close> peers of \<open>n\<close> consecutive calls are the slots after the cursor in cyclic
  order, each slot once in a full round; and a pool with one live backend yields that
  backend.
\<close>

lemma GetNextPeer_all_alive:
  assumes "pool_ok (Suc k) s" and "\<forall>b \<in> set (backends s). IsAlive b"
  shows "GetNextPeer s = Inr (Some (scan_start s mod length (backends s)),
                              s\<lparr>current := of_nat (scan_start s)\<rparr>)"
proof -
  have "backends s \<noteq> []" using assms(1) by (simp add: pool_ok_def)
  from scan_all_alive[OF this assms(2)] show ?thesis
    by (simp add: GetNextPeer_ok[OF assms(1)])
qed

lemma GetNextPeer_seq_round_robin:
  assumes "pool_ok n s" and "\<forall>b \<in> set (backends s). IsAlive b"
  shows "GetNextPeer_seq n s =
     map (\<lambda>k. Some ((unat (current s) + k) mod length (backends s))) [1..<Suc n]"
  using assms
proof (induction n arbitrary: s)
  case 0
  then show ?case by simp
next
  case (Suc n)
  let ?N = "length (backends s)"
  let ?st = "scan_start s"
  let ?s' = "s\<lparr>current := of_nat ?st\<rparr>"
  note ok = Suc.prems(1)
  have g: "GetNextPeer s = Inr (Some (?st mod ?N), ?s')"
    by (rule GetNextPeer_all_alive[OF ok Suc.prems(2)])
  from GetNextPeer_safe[OF ok] g have ok': "pool_ok n ?s'" by auto
  have "?st < 2 ^ 63" using pool_okD(3)[OF ok] by (simp add: scan_start_def)
  then have c': "unat (current ?s') = ?st" by (simp add: unat_of_nat_small)
  have ih: "GetNextPeer_seq n ?s' = map (\<lambda>k. Some ((?st + k) mod ?N)) [1..<Suc n]"
    using Suc.IH[OF ok'] Suc.prems(2) c' by simp
  have up: "[1..<Suc (Suc n)] = 1 # map Suc [1..<Suc n]"
    by (simp add: map_Suc_upt upt_conv_Cons del: upt_Suc)
  show ?case
  proof (cases "?N = 1")
    case True
    then show ?thesis unfolding GetNextPeer_seq.simps g up using ih by simp
  next
    case False
    then have "?st = unat (current s) + 1" by (simp add: scan_start_def)
    then show ?thesis unfolding GetNextPeer_seq.simps g up using ih by simp
  qed
qed

lemma cycle_once:
  assumes "0 < (n::nat)"
  shows "set (map (\<lambda>k. (c + k) mod n) [1..<Suc n]) = {0..<n}"
    and "distinct (map (\<lambda>k. (c + k) mod n) [1..<Suc n])"
proof -
  let ?xs = "map (\<lambda>k. (c + k) mod n) [1..<Suc n]"
  show s: "set ?xs = {0..<n}"
  proof
    show "set ?xs \<subseteq> {0..<n}" using assms by auto
    show "{0..<n} \<subseteq> set ?xs"
    proof
      fix i assume "i \<in> {0..<n}"
      then have "i < n" by simp
      from residues[OF assms this, of "c + 1"] obtain j where
        j: "c + 1 \<le> j" "j < c + 1 + n" "j mod n = i" by blast
      then have "j - c \<in> set [1..<Suc n]" "(c + (j - c)) mod n = i" by auto
      then show "i \<in> set ?xs" by (metis (mono_tags, lifting) image_eqI set_map)
    qed
  qed
  have "card (set ?xs) = n" unfolding s by simp
  moreover have "length ?xs = n" by simp
  ultimately have "card (set ?xs) = length ?xs" by simp
  then show "distinct ?xs" by (rule card_distinct)
qed

lemma GetNextPeer_single_alive:
  assumes "pool_ok (Suc k) s" and "a < length (backends s)" and "IsAlive (backends s ! a)"
    and "\<forall>i < length (backends s). i \<noteq> a \<longrightarrow> \<not> IsAlive (backends s ! i)"
  shows "\<exists>s'. GetNextPeer s = Inr (Some a, s')"
proof -
  from GetNextPeer_safe[OF assms(1)] obtain peer s' where
    g: "GetNextPeer s = Inr (peer, s')"
    and none: "peer = None \<longleftrightarrow> (\<forall>b \<in> set (backends s). \<not> IsAlive b)"
    and some: "\<forall>i. peer = Some i \<longrightarrow> i < length (backends s) \<and> IsAlive (backends s ! i)"
    by blast
  have "peer \<noteq> None" using none assms(2,3) nth_mem by blast
  then obtain i where i: "peer = Some i" by auto
  with some assms(4) have "i = a" by blast
  with g i show ?thesis by simp
qed

section \<open>The claims about the pool\<close>

text \<open>
  C1 (the code departs from it). The claim: every call of \<^verbatim>\<open>NextIndex\<close> adds one
  to the cursor and returns the cursor reduced modulo the number of backends, an index
  in \<open>0..n-1\<close>. The code reduces the increment instead of the cursor: with two
  backends and the cursor at 1 the call returns 2, which is no index of a pool of two.
\<close>

theorem NextIndex_returns_raw_cursor:
  "NextIndex (pool2 0) = Inr (1, pool2 1) \<and> NextIndex (pool2 1) = Inr (2, pool2 2)"
  by (simp add: NextIndex_def pool2_def)

text \<open>With one backend the increment is \<open>1 mod 1 = 0\<close>: the cursor stands still.\<close>

lemma NextIndex_single_backend:
  "NextIndex pool1 = Inr (0, pool1)"
  by (simp add: NextIndex_def pool1_def)



text \<open>
  C6 (corrected). As stated the claim fails when two backends have the same URL
  string: \<^verbatim>\<open>MarkBackendStatus\<close> stops at the first match, so marking the address
  of the second one dead leaves the second one alive, and \<^verbatim>\<open>GetNextPeer\<close> returns
  it. The amended claim: for a backend \<open>B\<close> in slot \<open>j\<close> that is the first of the
  pool with its URL string (every backend, when the URL strings are distinct),
  \<^verbatim>\<open>MarkBackendStatus(addr(B), alive)\<close> sets the liveness of \<open>B\<close> and nothing else,
  and after \<^verbatim>\<open>MarkBackendStatus(addr(B), false)\<close> no call of any run of
  consecutive \<^verbatim>\<open>GetNextPeer\<close> calls returns \<open>B\<close>, wherever the cursor stands.
\<close>

theorem marked_dead_not_selected:
  assumes "j < length (backends s)"
    and "\<forall>i < j. url_String (URL (backends s ! i)) \<noteq> url_String (URL (backends s ! j))"
  shows "MarkBackendStatus s (URL (backends s ! j)) alive =
           s\<lparr>backends := (backends s)[j := (backends s ! j)\<lparr>Alive := alive\<rparr>]\<rparr>
     \<and> \<not> IsAlive (backends (MarkBackendStatus s (URL (backends s ! j)) False) ! j)
     \<and> Some j \<notin> set (GetNextPeer_seq n
            ((MarkBackendStatus s (URL (backends s ! j)) False)\<lparr>current := c\<rparr>))"
proof -
  let ?u = "URL (backends s ! j)"
  have fm: "first_match (backends s) ?u = Some j"
    using assms by (intro first_match_least) auto
  have eq: "MarkBackendStatus s ?u a =
      s\<lparr>backends := (backends s)[j := (backends s ! j)\<lparr>Alive := a\<rparr>]\<rparr>" for a
    by (simp add: MarkBackendStatus_eq fm)
  have dead: "\<not> IsAlive (backends (MarkBackendStatus s ?u False) ! j)"
    using assms(1) by (simp add: eq IsAlive_def)
  have "Some j \<notin> set (GetNextPeer_seq n ((MarkBackendStatus s ?u False)\<lparr>current := c\<rparr>))"
    using dead assms(1) by (intro GetNextPeer_seq_dead) simp_all
  with eq dead show ?thesis by simp
qed

theorem marked_dead_not_selected_witness:
  "MarkBackendStatus (pool2 0) url_b False = \<lparr>backends = [b0, b1\<lparr>Alive := False\<rparr>], current = 0\<rparr>
   \<and> Some 1 \<notin> set (GetNextPeer_seq 3 (\<lparr>backends = [b0, b1\<lparr>Alive := False\<rparr>], current = 0\<rparr>))
   \<and> GetNextPeer_seq 3 (\<lparr>backends = [b0, b1\<lparr>Alive := False\<rparr>], current = 0\<rparr>)
       = [Some 0, Some 0, Some 0]"
proof -
  have j: "1 < length (backends (pool2 0))" by (simp add: pool2_def)
  have f: "\<forall>i < 1. url_String (URL (backends (pool2 0) ! i))
      \<noteq> url_String (URL (backends (pool2 0) ! 1))"
    by (simp add: pool2_def b0_def b1_def url_a_def url_b_def)
  have u: "URL (backends (pool2 0) ! 1) = url_b" by (simp add: pool2_def b1_def)
  have m: "MarkBackendStatus (pool2 0) url_b False = \<lparr>backends = [b0, b1\<lparr>Alive := False\<rparr>], current = 0\<rparr>"
    by (simp add: MarkBackendStatus_def pool2_def b0_def b1_def url_a_def url_b_def SetAlive_def)
  have e: "GetNextPeer_seq 3 (\<lparr>backends = [b0, b1\<lparr>Alive := False\<rparr>], current = 0\<rparr>)
       = [Some 0, Some 0, Some 0]"
    by (simp add: numeral_3_eq_3 GetNextPeer_def NextIndex_def int64_def GetNextPeer_loop.simps
        go_rem_def IsAlive_def b0_def b1_def)
  from marked_dead_not_selected[OF j f, of False 3 0] show ?thesis
    unfolding u m using e by simp
qed

theorem duplicate_url_still_selected:
  "GetNextPeer (MarkBackendStatus dup_pool (URL (backends dup_pool ! 1)) False)
     = Inr (Some 1, \<lparr>backends = [b0\<lparr>Alive := False\<rparr>, b0], current = 1\<rparr>)"
  by (simp add: GetNextPeer_def NextIndex_def dup_pool_def int64_def GetNextPeer_loop.simps
        go_rem_def IsAlive_def b0_def MarkBackendStatus_def SetAlive_def)

text \<open>
  C7 (corrected). As stated the claim fails on the count of log records: for a backend
  whose probe fails, \<^verbatim>\<open>isBackendAlive\<close> logs the dial error and \<^verbatim>\<open>HealthCheck\<close>
  logs the status, two records for one backend. The amended claim:
  \<^verbatim>\<open>HealthCheck\<close> visits every backend, sets the liveness of each to the result of
  the probe of its address and leaves the rest of the pool as it is; it logs one status
  record per backend, in pool order, and one more record for each backend whose probe
  fails; and run again on its own result with the same probe outcomes it yields the same
  pool and the same log.
\<close>

theorem HealthCheck_sets_liveness:
  "backends (fst (HealthCheck dial s))
      = map (\<lambda>b. b\<lparr>Alive := fst (isBackendAlive dial (URL b))\<rparr>) (backends s)
   \<and> current (fst (HealthCheck dial s)) = current s
   \<and> filter is_status (snd (HealthCheck dial s))
      = map (\<lambda>b. LogStatus (URL b) (if fst (isBackendAlive dial (URL b)) then ''up'' else ''down''))
          (backends s)
   \<and> length (snd (HealthCheck dial s))
      = length (backends s)
        + length (filter (\<lambda>b. \<not> fst (isBackendAlive dial (URL b))) (backends s))
   \<and> fst (HealthCheck dial (fst (HealthCheck dial s))) = fst (HealthCheck dial s)
   \<and> snd (HealthCheck dial (fst (HealthCheck dial s))) = snd (HealthCheck dial s)"
proof -
  have "length (snd (HealthCheck_loop dial bs))
      = length (filter is_status (snd (HealthCheck_loop dial bs)))
        + length (filter (\<lambda>r. \<not> is_status r) (snd (HealthCheck_loop dial bs)))" for bs
    by (rule sum_length_filter_compl[symmetric])
  then have "length (snd (HealthCheck dial s))
      = length (backends s) + length (filter (\<lambda>b. \<not> probe dial b) (backends s))"
    by (simp add: HealthCheck_alt HealthCheck_loop_status HealthCheck_loop_unreachable)
  then show ?thesis
    by (simp add: probe_isBackendAlive HealthCheck_backends HealthCheck_current HealthCheck_idem
        HealthCheck_log_again)
       (simp add: HealthCheck_alt HealthCheck_loop_status)
qed

theorem HealthCheck_two_records:
  "snd (HealthCheck refused pool1) = [LogUnreachable ''connection refused'', LogStatus url_a ''down'']"
  by (simp add: HealthCheck_def pool1_def b0_def isBackendAlive_def refused_def)

text \<open>
  C9 (corrected). As stated the claim places the division by zero of
  \<^verbatim>\<open>GetNextPeer\<close> in its index reduction \<^verbatim>\<open>i % len(s.backends)\<close>; on the empty
  pool \<^verbatim>\<open>GetNextPeer\<close> panics in the call of \<^verbatim>\<open>NextIndex\<close> it starts with, and
  its index reduction never divides by zero. The amended claim: \<^verbatim>\<open>NextIndex\<close> and
  \<^verbatim>\<open>GetNextPeer\<close> panic with a division by zero exactly on the empty pool, in both
  cases in the increment expression of \<^verbatim>\<open>NextIndex\<close>; \<^verbatim>\<open>main\<close> is fatal on an
  empty server list, and in every pool state of a serving process (the pool
  \<^verbatim>\<open>main\<close> built, and what the pool's operations make of it) neither of them
  divides by zero.
\<close>

theorem empty_pool_panics:
  "(NextIndex s = Inl (DivideByZero IncrementExpression) \<longleftrightarrow> backends s = [])
   \<and> (GetNextPeer s = Inl (DivideByZero IncrementExpression) \<longleftrightarrow> backends s = [])
   \<and> NextIndex s \<noteq> Inl (DivideByZero IndexReduction)
   \<and> GetNextPeer s \<noteq> Inl (DivideByZero IndexReduction)
   \<and> main_startup parse [] = None
   \<and> (serving s \<longrightarrow>
        (\<forall>e. NextIndex s \<noteq> Inl (DivideByZero e) \<and> GetNextPeer s \<noteq> Inl (DivideByZero e)))"
  using serving_nonempty[of s]
  by (simp add: NextIndex_DivideByZero_iff GetNextPeer_DivideByZero_iff main_startup_def)

theorem empty_pool_panics_witness:
  "main_startup parse_plain ''a,b'' = Some started2
   \<and> NextIndex started2 \<noteq> Inl (DivideByZero IncrementExpression)
   \<and> GetNextPeer started2 \<noteq> Inl (DivideByZero IncrementExpression)
   \<and> NextIndex started2 \<noteq> Inl (DivideByZero IndexReduction)
   \<and> GetNextPeer started2 \<noteq> Inl (DivideByZero IndexReduction)"
proof -
  have m: "main_startup parse_plain ''a,b'' = Some started2"
    by (simp add: main_startup_def parse_plain_def started2_def AddBackend_def)
  then have s: "serving started2" by (rule serving.started)
  note a = empty_pool_panics[of started2 parse_plain]
  have "\<forall>e. NextIndex started2 \<noteq> Inl (DivideByZero e)
          \<and> GetNextPeer started2 \<noteq> Inl (DivideByZero e)"
    by (rule mp[OF a[THEN conjunct2, THEN conjunct2, THEN conjunct2, THEN conjunct2,
                     THEN conjunct2] s])
  with m show ?thesis by blast
qed

theorem index_reduction_not_reached:
  "GetNextPeer no_backends = Inl (DivideByZero IncrementExpression)
   \<and> GetNextPeer no_backends \<noteq> Inl (DivideByZero IndexReduction)"
  by (simp add: GetNextPeer_def NextIndex_def no_backends_def)

text \<open>
  C10 (confirmed). When no backend has the URL string given, \<^verbatim>\<open>MarkBackendStatus\<close>
  returns the pool as it was. In every call the cursor, the number of backends and
  every backend's URL are unchanged, every backend other than the first match is
  unchanged, and of the first match only the liveness flag is set.
\<close>

theorem MarkBackendStatus_frame:
  "((\<forall>b \<in> set (backends s). url_String (URL b) \<noteq> url_String u)
       \<longrightarrow> MarkBackendStatus s u alive = s)
   \<and> current (MarkBackendStatus s u alive) = current s
   \<and> length (backends (MarkBackendStatus s u alive)) = length (backends s)
   \<and> map URL (backends (MarkBackendStatus s u alive)) = map URL (backends s)
   \<and> (\<forall>i < length (backends s). first_match (backends s) u \<noteq> Some i
         \<longrightarrow> backends (MarkBackendStatus s u alive) ! i = backends s ! i)
   \<and> (\<forall>j. first_match (backends s) u = Some j \<longrightarrow>
         j < length (backends s)
         \<and> url_String (URL (backends s ! j)) = url_String u
         \<and> (\<forall>i < j. url_String (URL (backends s ! i)) \<noteq> url_String u)
         \<and> backends (MarkBackendStatus s u alive) ! j = (backends s ! j)\<lparr>Alive := alive\<rparr>)"
proof -
  have 1: "(\<forall>b \<in> set (backends s). url_String (URL b) \<noteq> url_String u)
       \<longrightarrow> MarkBackendStatus s u alive = s"
    by (simp add: MarkBackendStatus_eq flip: first_match_None_iff)
  have 2: "\<forall>i < length (backends s). first_match (backends s) u \<noteq> Some i
         \<longrightarrow> backends (MarkBackendStatus s u alive) ! i = backends s ! i"
    by (auto simp: MarkBackendStatus_eq split: option.splits)
  have 3: "\<forall>j. first_match (backends s) u = Some j \<longrightarrow>
         j < length (backends s)
         \<and> url_String (URL (backends s ! j)) = url_String u
         \<and> (\<forall>i < j. url_String (URL (backends s ! i)) \<noteq> url_String u)
         \<and> backends (MarkBackendStatus s u alive) ! j = (backends s ! j)\<lparr>Alive := alive\<rparr>"
  proof (intro allI impI)
    fix j assume j: "first_match (backends s) u = Some j"
    from first_match_SomeD[OF j] j
    show "j < length (backends s)
         \<and> url_String (URL (backends s ! j)) = url_String u
         \<and> (\<forall>i < j. url_String (URL (backends s ! i)) \<noteq> url_String u)
         \<and> backends (MarkBackendStatus s u alive) ! j = (backends s ! j)\<lparr>Alive := alive\<rparr>"
      by (simp add: MarkBackendStatus_eq)
  qed
  show ?thesis using 1 2 3 by (simp add: MarkBackendStatus_URL)
qed

theorem MarkBackendStatus_frame_witness:
  "MarkBackendStatus (pool2 0) url_c False = pool2 0
   \<and> backends (MarkBackendStatus (pool2 0) url_b False) ! 0 = b0
   \<and> backends (MarkBackendStatus (pool2 0) url_b False) ! 1 = b1\<lparr>Alive := False\<rparr>"
  using MarkBackendStatus_frame[of "pool2 0" url_c False]
    MarkBackendStatus_frame[of "pool2 0" url_b False]
  by (simp add: pool2_def b0_def b1_def url_a_def url_b_def url_c_def)

section \<open>Lemmas about the dispatch\<close>

lemma emit_simps [simp]:
  "writer (emit e st) = writer st" "pool (emit e st) = pool st"
  "trace (emit e st) = trace st @ [e]"
  by (simp_all add: emit_def)

lemma http_Error_simps [simp]:
  "writer (http_Error msg 503 st) = writer st @ [unavailable msg]"
  "pool (http_Error msg code st) = pool st"
  "trace (http_Error msg code st) = trace st"
  by (simp_all add: http_Error_def unavailable_def)

lemma lb_ceiling:
  "3 < GetAttemptsFromContext r \<Longrightarrow>
     lb tr r st = Inr (http_Error ''service not available'' 503 (emit EvLogMax st))"
  by (subst lb.simps) simp

lemma lb_no_peer:
  "\<not> 3 < GetAttemptsFromContext r \<Longrightarrow> GetNextPeer (pool st) = Inr (None, p) \<Longrightarrow>
     lb tr r st = Inr (http_Error ''Service not available'' 503
                        (emit (EvGetNextPeer None) (st\<lparr>pool := p\<rparr>)))"
  by (subst lb.simps) simp

lemma lb_peer:
  "\<not> 3 < GetAttemptsFromContext r \<Longrightarrow> GetNextPeer (pool st) = Inr (Some i, p) \<Longrightarrow>
     lb tr r st = ServeHTTP tr i (URL (backends p ! i)) r
                    (emit (EvGetNextPeer (Some i)) (st\<lparr>pool := p\<rparr>))"
  by (subst lb.simps) simp

lemma lb_panic:
  "\<not> 3 < GetAttemptsFromContext r \<Longrightarrow> GetNextPeer (pool st) = Inl e \<Longrightarrow>
     lb tr r st = Inl e"
  by (subst lb.simps) simp

lemma ServeHTTP_ok:
  "tr i (length (trace st)) \<Longrightarrow>
     ServeHTTP tr i u r st = Inr ((emit (EvForward i True) st)\<lparr>writer := writer st @ [Proxied i]\<rparr>)"
  by (subst ServeHTTP.simps) simp

lemma ServeHTTP_fail:
  "\<not> tr i (length (trace st)) \<Longrightarrow>
     ServeHTTP tr i u r st = ErrorHandler tr i u r (emit (EvForward i False) st)"
  by (subst ServeHTTP.simps) simp

lemma ErrorHandler_retry:
  "GetRetryFromContext r < 3 \<Longrightarrow>
     ErrorHandler tr i u r st =
       ServeHTTP tr i u (r\<lparr>ctx_Retry := Some (GetRetryFromContext r + 1)\<rparr>)
         (emit EvDelay (emit (EvLogError (url_Host u)) st))"
  by (subst ErrorHandler.simps) simp

lemma ErrorHandler_exhausted:
  "\<not> GetRetryFromContext r < 3 \<Longrightarrow>
     ErrorHandler tr i u r st =
       lb tr (r\<lparr>ctx_Attempts := Some (GetAttemptsFromContext r + 1)\<rparr>)
         (emit (EvLogAttempt (GetAttemptsFromContext r))
           (emit (EvMarkBackendStatus u False)
             ((emit (EvLogError (url_Host u)) st)\<lparr>pool := MarkBackendStatus (pool st) u False\<rparr>)))"
  by (subst ErrorHandler.simps) (simp add: Let_def)

lemma ctx_simps [simp]:
  "GetAttemptsFromContext (r\<lparr>ctx_Retry := x\<rparr>) = GetAttemptsFromContext r"
  "GetRetryFromContext (r\<lparr>ctx_Attempts := y\<rparr>) = GetRetryFromContext r"
  "GetAttemptsFromContext (r\<lparr>ctx_Attempts := Some a\<rparr>) = a"
  "GetRetryFromContext (r\<lparr>ctx_Retry := Some b\<rparr>) = b"
  by (simp_all add: GetAttemptsFromContext_def GetRetryFromContext_def)

lemma forwarded_append [simp]: "forwarded (xs @ ys) = forwarded xs @ forwarded ys"
  by (induction xs rule: forwarded.induct) simp_all

lemma selected_append [simp]: "selected (xs @ ys) = selected xs @ selected ys"
  by (induction xs rule: selected.induct) simp_all

lemma attempts_logged_append [simp]:
  "attempts_logged (xs @ ys) = attempts_logged xs @ attempts_logged ys"
  by (induction xs rule: attempts_logged.induct) simp_all

lemma marked_dead_append [simp]: "marked_dead (xs @ ys) = marked_dead xs @ marked_dead ys"
  by (induction xs rule: marked_dead.induct) simp_all

lemma answered_step:
  assumes "answered a' st1 res"
    and "writer st1 = writer st" and "trace st1 = trace st @ evs0"
    and "a' = a + int (length (marked_dead evs0))"
  shows "answered a st res"
proof -
  from assms(1) obtain st' evs resp where r: "res = Inr st'"
    and w: "writer st' = writer st1 @ [resp]"
    and t: "trace st' = trace st1 @ evs" and ne: "evs \<noteq> []"
    and d: "(\<exists>i. resp = Proxied i \<and> last evs = EvForward i True)
           \<or> (resp = unavailable ''service not available'' \<and> last evs = EvLogMax
               \<and> 3 < a' + int (length (marked_dead evs)))
           \<or> (resp = unavailable ''Service not available''
               \<and> last evs = EvGetNextPeer None
               \<and> (\<forall>b \<in> set (backends (pool st')). \<not> IsAlive b))"
    unfolding answered_def by blast
  have 1: "writer st' = writer st @ [resp]" using w assms(2) by simp
  have 2: "trace st' = trace st @ (evs0 @ evs)" using t assms(3) by simp
  have 3: "evs0 @ evs \<noteq> []" using ne by simp
  have l: "last (evs0 @ evs) = last evs" using ne by simp
  have m: "a' + int (length (marked_dead evs)) = a + int (length (marked_dead (evs0 @ evs)))"
    using assms(4) by simp
  have 4: "(\<exists>i. resp = Proxied i \<and> last (evs0 @ evs) = EvForward i True)
           \<or> (resp = unavailable ''service not available'' \<and> last (evs0 @ evs) = EvLogMax
               \<and> 3 < a + int (length (marked_dead (evs0 @ evs))))
           \<or> (resp = unavailable ''Service not available''
               \<and> last (evs0 @ evs) = EvGetNextPeer None
               \<and> (\<forall>b \<in> set (backends (pool st')). \<not> IsAlive b))"
    using d unfolding l m .
  from r 1 2 3 4 show ?thesis unfolding answered_def by blast
qed

lemma dispatch_answered:
  "pool_ok (nat (4 - GetAttemptsFromContext r)) (pool st) \<Longrightarrow>
     answered (GetAttemptsFromContext r) st (lb tr r st)"
  "pool_ok (nat (3 - GetAttemptsFromContext r')) (pool st') \<Longrightarrow>
     answered (GetAttemptsFromContext r') st' (ServeHTTP tr' i u r' st')"
  "pool_ok (nat (3 - GetAttemptsFromContext r'')) (pool st'') \<Longrightarrow>
     answered (GetAttemptsFromContext r'') st'' (ErrorHandler tr'' i' u' r'' st'')"
proof (induct tr r st and tr' i u r' st' and tr'' i' u' r'' st''
    rule: lb_ServeHTTP_ErrorHandler.induct)
  case (1 tr r st)
  let ?a = "GetAttemptsFromContext r"
  show ?case
  proof (cases "3 < ?a")
    case True
    have "answered ?a st (Inr (http_Error ''service not available'' 503 (emit EvLogMax st)))"
      unfolding answered_def
      by (rule exI[of _ "http_Error ''service not available'' 503 (emit EvLogMax st)"],
          rule exI[of _ "[EvLogMax]"], rule exI[of _ "unavailable ''service not available''"])
         (simp add: True)
    then show ?thesis using True by (simp add: lb_ceiling)
  next
    case False
    then have "nat (4 - ?a) = Suc (nat (3 - ?a))" by simp
    with "1.prems" have "pool_ok (Suc (nat (3 - ?a))) (pool st)" by simp
    from GetNextPeer_safe[OF this] obtain peer p where
      g: "GetNextPeer (pool st) = Inr (peer, p)" and bs: "backends p = backends (pool st)"
      and ok: "pool_ok (nat (3 - ?a)) p"
      and none: "peer = None \<longleftrightarrow> (\<forall>b \<in> set (backends (pool st)). \<not> IsAlive b)"
      by blast
    show ?thesis
    proof (cases peer)
      case None
      let ?st = "emit (EvGetNextPeer None) (st\<lparr>pool := p\<rparr>)"
      have "answered ?a st (Inr (http_Error ''Service not available'' 503 ?st))"
        unfolding answered_def
        by (rule exI[of _ "http_Error ''Service not available'' 503 ?st"],
            rule exI[of _ "[EvGetNextPeer None]"],
            rule exI[of _ "unavailable ''Service not available''"])
           (use None none bs in simp)
      then show ?thesis using g None False by (simp add: lb_no_peer)
    next
      case (Some j)
      let ?st = "emit (EvGetNextPeer peer) (st\<lparr>pool := p\<rparr>)"
      have ih: "answered ?a ?st (ServeHTTP tr j (URL (backends p ! j)) r ?st)"
        using "1.hyps"[OF refl False g refl Some] ok by simp
      have "answered ?a st (ServeHTTP tr j (URL (backends p ! j)) r ?st)"
        by (rule answered_step[OF ih, where ?evs0.0 = "[EvGetNextPeer (Some j)]"])
           (simp_all add: Some)
      then show ?thesis using g Some False by (simp add: lb_peer)
    qed
  qed
next
  case (2 tr i u r st)
  let ?a = "GetAttemptsFromContext r"
  show ?case
  proof (cases "tr i (length (trace st))")
    case True
    let ?st = "(emit (EvForward i True) st)\<lparr>writer := writer st @ [Proxied i]\<rparr>"
    have "answered ?a st (Inr ?st)"
      unfolding answered_def
      by (rule exI[of _ ?st], rule exI[of _ "[EvForward i True]"], rule exI[of _ "Proxied i"])
         simp
    then show ?thesis using True by (simp add: ServeHTTP_ok)
  next
    case False
    let ?st = "emit (EvForward i False) st"
    have ih: "answered ?a ?st (ErrorHandler tr i u r ?st)"
      using "2.hyps"[OF False] "2.prems" by simp
    have "answered ?a st (ErrorHandler tr i u r ?st)"
      by (rule answered_step[OF ih, where ?evs0.0 = "[EvForward i False]"]) simp_all
    then show ?thesis using False by (simp add: ServeHTTP_fail)
  qed
next
  case (3 tr i u r st)
  let ?a = "GetAttemptsFromContext r"
  show ?case
  proof (cases "GetRetryFromContext r < 3")
    case True
    let ?r = "r\<lparr>ctx_Retry := Some (GetRetryFromContext r + 1)\<rparr>"
    let ?st = "emit EvDelay (emit (EvLogError (url_Host u)) st)"
    have ih: "answered ?a ?st (ServeHTTP tr i u ?r ?st)"
      using "3.hyps"(1)[OF refl True] "3.prems" by simp
    have "answered ?a st (ServeHTTP tr i u ?r ?st)"
      by (rule answered_step[OF ih, where ?evs0.0 = "[EvLogError (url_Host u), EvDelay]"])
         simp_all
    then show ?thesis using True by (simp add: ErrorHandler_retry)
  next
    case False
    let ?r = "r\<lparr>ctx_Attempts := Some (?a + 1)\<rparr>"
    let ?st = "emit (EvLogAttempt ?a)
           (emit (EvMarkBackendStatus u False)
             ((emit (EvLogError (url_Host u)) st)\<lparr>pool := MarkBackendStatus (pool st) u False\<rparr>))"
    have eq: "nat (4 - (?a + 1)) = nat (3 - ?a)" by simp
    have ih: "answered (?a + 1) ?st (lb tr ?r ?st)"
      using "3.hyps"(2)[OF refl False refl] "3.prems" by (simp add: eq)
    have "answered ?a st (lb tr ?r ?st)"
      by (rule answered_step[OF ih, where
            ?evs0.0 = "[EvLogError (url_Host u), EvMarkBackendStatus u False, EvLogAttempt ?a]"])
         simp_all
    then show ?thesis using False by (simp add: ErrorHandler_exhausted)
  qed
qed

lemma replied_writer:
  "replied st1 res \<Longrightarrow> writer st1 = writer st \<Longrightarrow> replied st res"
  by (simp add: replied_def)

lemma dispatch_replied:
  "replied st (lb tr r st)"
  "replied st' (ServeHTTP tr' i u r' st')"
  "replied st'' (ErrorHandler tr'' i' u' r'' st'')"
proof (induct tr r st and tr' i u r' st' and tr'' i' u' r'' st''
    rule: lb_ServeHTTP_ErrorHandler.induct)
  case (1 tr r st)
  show ?case
  proof (cases "3 < GetAttemptsFromContext r")
    case True
    then show ?thesis by (simp add: lb_ceiling replied_def)
  next
    case False
    show ?thesis
    proof (cases "GetNextPeer (pool st)")
      case (Inl e)
      with False show ?thesis by (simp add: lb_panic replied_def)
    next
      case (Inr x)
      obtain peer p where x: "x = (peer, p)" by (cases x)
      show ?thesis
      proof (cases peer)
        case None
        with Inr x False show ?thesis by (simp add: lb_no_peer replied_def)
      next
        case (Some j)
        have "replied (emit (EvGetNextPeer peer) (st\<lparr>pool := p\<rparr>))
              (ServeHTTP tr j (URL (backends p ! j)) r (emit (EvGetNextPeer peer) (st\<lparr>pool := p\<rparr>)))"
          using Inr x by (intro "1.hyps"[OF refl False _ refl Some]) simp
        then show ?thesis using Inr x Some False
          by (simp add: lb_peer) (erule replied_writer, simp)
      qed
    qed
  qed
next
  case (2 tr i u r st)
  show ?case
  proof (cases "tr i (length (trace st))")
    case True
    then show ?thesis by (simp add: ServeHTTP_ok replied_def)
  next
    case False
    have "replied (emit (EvForward i False) st) (ErrorHandler tr i u r (emit (EvForward i False) st))"
      by (rule "2.hyps"[OF False])
    then show ?thesis using False
      by (simp add: ServeHTTP_fail) (erule replied_writer, simp)
  qed
next
  case (3 tr i u r st)
  show ?case
  proof (cases "GetRetryFromContext r < 3")
    case True
    have "replied (emit EvDelay (emit (EvLogError (url_Host u)) st))
       (ServeHTTP tr i u (r\<lparr>ctx_Retry := Some (GetRetryFromContext r + 1)\<rparr>)
         (emit EvDelay (emit (EvLogError (url_Host u)) st)))"
      by (rule "3.hyps"(1)[OF refl True])
    then show ?thesis using True
      by (simp add: ErrorHandler_retry) (erule replied_writer, simp)
  next
    case False
    let ?st = "emit (EvLogAttempt (GetAttemptsFromContext r))
           (emit (EvMarkBackendStatus u False)
             ((emit (EvLogError (url_Host u)) st)\<lparr>pool := MarkBackendStatus (pool st) u False\<rparr>))"
    have "replied ?st (lb tr (r\<lparr>ctx_Attempts := Some (GetAttemptsFromContext r + 1)\<rparr>) ?st)"
      by (rule "3.hyps"(2)[OF refl False refl])
    then show ?thesis using False
      by (simp add: ErrorHandler_exhausted) (erule replied_writer, simp)
  qed
qed

subsection \<open>A request on which every forward fails\<close>

lemma shift_upt:
  "map (\<lambda>n. a + int n) [0..<m0 + m]
     = map (\<lambda>n. a + int n) [0..<m0] @ map (\<lambda>n. (a + int m0) + int n) [0..<m]"
  by (induction m) (simp_all add: add.assoc)

lemma given_up_step:
  assumes "given_up a' pending' k' st1 res"
    and "writer st1 = writer st" and "trace st1 = trace st @ evs0"
    and "length (selected evs0) + k' \<le> k"
    and "set (forwarded evs0) \<subseteq> pending \<union> set (selected evs0)"
    and "pending' \<subseteq> pending \<union> set (selected evs0)"
    and "length (marked_dead evs0) + card pending' = card pending + length (selected evs0)"
    and "attempts_logged evs0 = map (\<lambda>n. a + int n) [0..<length (marked_dead evs0)]"
    and "a' = a + int (length (marked_dead evs0))"
  shows "given_up a pending k st res"
proof -
  from assms(1) obtain st' evs msg where r: "res = Inr st'"
    and w: "writer st' = writer st1 @ [unavailable msg]"
    and t: "trace st' = trace st1 @ evs"
    and sel: "length (selected evs) \<le> k'"
    and fw: "set (forwarded evs) \<subseteq> pending' \<union> set (selected evs)"
    and md: "length (marked_dead evs) = card pending' + length (selected evs)"
    and al: "attempts_logged evs = map (\<lambda>n. a' + int n) [0..<length (marked_dead evs)]"
    and ne: "evs \<noteq> []"
    and d: "(msg = ''service not available'' \<and> last evs = EvLogMax
               \<and> 3 < a' + int (length (marked_dead evs)))
           \<or> (msg = ''Service not available'' \<and> last evs = EvGetNextPeer None
               \<and> (\<forall>b \<in> set (backends (pool st')). \<not> IsAlive b))"
    unfolding given_up_def by blast
  have 1: "writer st' = writer st @ [unavailable msg]" using w assms(2) by simp
  have 2: "trace st' = trace st @ (evs0 @ evs)" using t assms(3) by simp
  have 3: "length (selected (evs0 @ evs)) \<le> k" using sel assms(4) by simp
  have 4: "set (forwarded (evs0 @ evs)) \<subseteq> pending \<union> set (selected (evs0 @ evs))"
    using fw assms(5,6) by auto
  have 5: "length (marked_dead (evs0 @ evs)) = card pending + length (selected (evs0 @ evs))"
    using md assms(7) by simp
  have 6: "attempts_logged (evs0 @ evs)
      = map (\<lambda>n. a + int n) [0..<length (marked_dead (evs0 @ evs))]"
    unfolding attempts_logged_append marked_dead_append length_append shift_upt
    using al assms(8,9) by simp
  have 7: "evs0 @ evs \<noteq> []" using ne by simp
  have l: "last (evs0 @ evs) = last evs" using ne by simp
  have m: "a' + int (length (marked_dead evs)) = a + int (length (marked_dead (evs0 @ evs)))"
    using assms(9) by simp
  have 8: "(msg = ''service not available'' \<and> last (evs0 @ evs) = EvLogMax
               \<and> 3 < a + int (length (marked_dead (evs0 @ evs))))
           \<or> (msg = ''Service not available'' \<and> last (evs0 @ evs) = EvGetNextPeer None
               \<and> (\<forall>b \<in> set (backends (pool st')). \<not> IsAlive b))"
    using d unfolding l m .
  from r 1 2 3 4 5 6 7 8 show ?thesis unfolding given_up_def by blast
qed

lemma dispatch_given_up:
  "\<forall>i t. \<not> tr i t \<Longrightarrow> pool_ok (nat (4 - GetAttemptsFromContext r)) (pool st) \<Longrightarrow>
     given_up (GetAttemptsFromContext r) {} (nat (4 - GetAttemptsFromContext r)) st (lb tr r st)"
  "\<forall>i t. \<not> tr' i t \<Longrightarrow> pool_ok (nat (3 - GetAttemptsFromContext r')) (pool st') \<Longrightarrow>
     given_up (GetAttemptsFromContext r') {i} (nat (3 - GetAttemptsFromContext r')) st'
       (ServeHTTP tr' i u r' st')"
  "\<forall>i t. \<not> tr'' i t \<Longrightarrow> pool_ok (nat (3 - GetAttemptsFromContext r'')) (pool st'') \<Longrightarrow>
     given_up (GetAttemptsFromContext r'') {i'} (nat (3 - GetAttemptsFromContext r'')) st''
       (ErrorHandler tr'' i' u' r'' st'')"
proof (induct tr r st and tr' i u r' st' and tr'' i' u' r'' st''
    rule: lb_ServeHTTP_ErrorHandler.induct)
  case (1 tr r st)
  let ?a = "GetAttemptsFromContext r"
  show ?case
  proof (cases "3 < ?a")
    case True
    have "given_up ?a {} (nat (4 - ?a)) st
        (Inr (http_Error ''service not available'' 503 (emit EvLogMax st)))"
      unfolding given_up_def
      by (rule exI[of _ "http_Error ''service not available'' 503 (emit EvLogMax st)"],
          rule exI[of _ "[EvLogMax]"], rule exI[of _ "''service not available''"])
         (simp add: True)
    then show ?thesis using True by (simp add: lb_ceiling)
  next
    case False
    then have k: "nat (4 - ?a) = Suc (nat (3 - ?a))" by simp
    with "1.prems" have "pool_ok (Suc (nat (3 - ?a))) (pool st)" by simp
    from GetNextPeer_safe[OF this] obtain peer p where
      g: "GetNextPeer (pool st) = Inr (peer, p)" and bs: "backends p = backends (pool st)"
      and ok: "pool_ok (nat (3 - ?a)) p"
      and none: "peer = None \<longleftrightarrow> (\<forall>b \<in> set (backends (pool st)). \<not> IsAlive b)"
      by blast
    show ?thesis
    proof (cases peer)
      case None
      let ?st = "emit (EvGetNextPeer None) (st\<lparr>pool := p\<rparr>)"
      have "given_up ?a {} (nat (4 - ?a)) st
          (Inr (http_Error ''Service not available'' 503 ?st))"
        unfolding given_up_def
        by (rule exI[of _ "http_Error ''Service not available'' 503 ?st"],
            rule exI[of _ "[EvGetNextPeer None]"], rule exI[of _ "''Service not available''"])
           (use None none bs in simp)
      then show ?thesis using g None False by (simp add: lb_no_peer)
    next
      case (Some j)
      let ?st = "emit (EvGetNextPeer peer) (st\<lparr>pool := p\<rparr>)"
      have ih: "given_up ?a {j} (nat (3 - ?a)) ?st (ServeHTTP tr j (URL (backends p ! j)) r ?st)"
        using "1.hyps"[OF refl False g refl Some "1.prems"(1)] ok by simp
      have "given_up ?a {} (nat (4 - ?a)) st (ServeHTTP tr j (URL (backends p ! j)) r ?st)"
        by (rule given_up_step[OF ih, where ?evs0.0 = "[EvGetNextPeer (Some j)]"])
           (simp_all add: Some k)
      then show ?thesis using g Some False by (simp add: lb_peer)
    qed
  qed
next
  case (2 tr i u r st)
  let ?a = "GetAttemptsFromContext r"
  let ?st = "emit (EvForward i False) st"
  from "2.prems"(1) have f: "\<not> tr i (length (trace st))" by simp
  have ih: "given_up ?a {i} (nat (3 - ?a)) ?st (ErrorHandler tr i u r ?st)"
    using "2.hyps"[OF f "2.prems"(1)] "2.prems"(2) by simp
  have "given_up ?a {i} (nat (3 - ?a)) st (ErrorHandler tr i u r ?st)"
    by (rule given_up_step[OF ih, where ?evs0.0 = "[EvForward i False]"]) simp_all
  then show ?case using f by (simp add: ServeHTTP_fail)
next
  case (3 tr i u r st)
  let ?a = "GetAttemptsFromContext r"
  show ?case
  proof (cases "GetRetryFromContext r < 3")
    case True
    let ?r = "r\<lparr>ctx_Retry := Some (GetRetryFromContext r + 1)\<rparr>"
    let ?st = "emit EvDelay (emit (EvLogError (url_Host u)) st)"
    have ih: "given_up ?a {i} (nat (3 - ?a)) ?st (ServeHTTP tr i u ?r ?st)"
      using "3.hyps"(1)[OF refl True "3.prems"(1)] "3.prems"(2) by simp
    have "given_up ?a {i} (nat (3 - ?a)) st (ServeHTTP tr i u ?r ?st)"
      by (rule given_up_step[OF ih, where ?evs0.0 = "[EvLogError (url_Host u), EvDelay]"])
         simp_all
    then show ?thesis using True by (simp add: ErrorHandler_retry)
  next
    case False
    let ?r = "r\<lparr>ctx_Attempts := Some (?a + 1)\<rparr>"
    let ?st = "emit (EvLogAttempt ?a)
           (emit (EvMarkBackendStatus u False)
             ((emit (EvLogError (url_Host u)) st)\<lparr>pool := MarkBackendStatus (pool st) u False\<rparr>))"
    have eq: "nat (4 - (?a + 1)) = nat (3 - ?a)" by simp
    have ih: "given_up (?a + 1) {} (nat (3 - ?a)) ?st (lb tr ?r ?st)"
      using "3.hyps"(2)[OF refl False refl "3.prems"(1)] "3.prems"(2) by (simp add: eq)
    have "given_up ?a {i} (nat (3 - ?a)) st (lb tr ?r ?st)"
      by (rule given_up_step[OF ih, where
            ?evs0.0 = "[EvLogError (url_Host u), EvMarkBackendStatus u False, EvLogAttempt ?a]"])
         simp_all
    then show ?thesis using False by (simp add: ErrorHandler_exhausted)
  qed
qed

lemma three_retries_then_marked:
  assumes "\<forall>t. \<not> tr i t" and "GetRetryFromContext r = 0"
  shows "ServeHTTP tr i u r st =
     lb tr (r\<lparr>ctx_Retry := Some 3, ctx_Attempts := Some (GetAttemptsFromContext r + 1)\<rparr>)
       (st\<lparr>pool := MarkBackendStatus (pool st) u False,
           trace := trace st @
             [EvForward i False, EvLogError (url_Host u), EvDelay,
              EvForward i False, EvLogError (url_Host u), EvDelay,
              EvForward i False, EvLogError (url_Host u), EvDelay,
              EvForward i False, EvLogError (url_Host u),
              EvMarkBackendStatus u False, EvLogAttempt (GetAttemptsFromContext r)]\<rparr>)"
  using assms
  by (simp add: ServeHTTP_fail ErrorHandler_retry ErrorHandler_exhausted emit_def)

lemma stale_retry_count_no_retry:
  assumes "\<forall>t. \<not> tr i t" and "GetRetryFromContext r = 3"
  shows "ServeHTTP tr i u r st =
     lb tr (r\<lparr>ctx_Attempts := Some (GetAttemptsFromContext r + 1)\<rparr>)
       (st\<lparr>pool := MarkBackendStatus (pool st) u False,
           trace := trace st @
             [EvForward i False, EvLogError (url_Host u),
              EvMarkBackendStatus u False, EvLogAttempt (GetAttemptsFromContext r)]\<rparr>)"
  using assms
  by (simp add: ServeHTTP_fail ErrorHandler_retry ErrorHandler_exhausted emit_def)

section \<open>The claims about the dispatch\<close>


text \<open>
  C5 (the code departs from it). The claim: every backend whose forwarder always fails
  is retried exactly 3 times, with the delay before each retry, before it is marked
  dead. The retry count travels in the request context and is not reset when the
  request moves on to another backend: of two failing backends the first selected
  (slot 1) is forwarded to four times, with three delays, and the second (slot 0) is
  marked dead after a single forward, with no retry and no delay. What holds in
  general is \<open>three_retries_then_marked\<close> for a request that carries no retry count
  and \<open>stale_retry_count_no_retry\<close> for one that carries the count 3.
\<close>

theorem second_backend_not_retried:
  "lb failing fresh (idle (pool2 0)) =
     Inr \<lparr>pool = \<lparr>backends = [b0\<lparr>Alive := False\<rparr>, b1\<lparr>Alive := False\<rparr>], current = 3\<rparr>,
          writer = [unavailable ''Service not available''],
          trace =
            [EvGetNextPeer (Some 1),
             EvForward 1 False, EvLogError ''b:2'', EvDelay,
             EvForward 1 False, EvLogError ''b:2'', EvDelay,
             EvForward 1 False, EvLogError ''b:2'', EvDelay,
             EvForward 1 False, EvLogError ''b:2'',
             EvMarkBackendStatus url_b False, EvLogAttempt 1,
             EvGetNextPeer (Some 0),
             EvForward 0 False, EvLogError ''a:1'',
             EvMarkBackendStatus url_a False, EvLogAttempt 2,
             EvGetNextPeer None]\<rparr>"
  by (simp add: lb.simps ServeHTTP.simps ErrorHandler.simps failing_def fresh_def idle_def
        pool2_def b0_def b1_def url_a_def url_b_def GetAttemptsFromContext_def
        GetRetryFromContext_def GetNextPeer_def NextIndex_def int64_def GetNextPeer_loop.simps
        go_rem_def IsAlive_def MarkBackendStatus_def SetAlive_def emit_def http_Error_def
        unavailable_def)


end
